theory Spec2Isabelle
  imports Complex_Main "HOL-Library.Word"
begin

unbundle bit_operations_syntax

section \<open>The treap of nmtTreap.hpp\<close>

text \<open>
  \<^verbatim>\<open>upsert\<close> and \<^verbatim>\<open>remove\<close> of \<^verbatim>\<open>src/hotspot/share/nmt/nmtTreap.hpp\<close> begin with a call
  of \<^verbatim>\<open>verify_self\<close>, which reads the tree, assigns to no member and to no node, and
  stops the VM when one of its assertions fails. The constants \<open>upsert\<close> and \<open>remove\<close>
  below are the two functions from the statement after that call on, that is, what a call
  that returns has done to the container; \<open>verify_self\<close> is modelled on its own, and
  \<open>upsert_checked\<close> and \<open>remove_checked\<close> are the whole calls, self-check included. The
  \<^verbatim>\<open>recur_count\<close> argument that \<^verbatim>\<open>DEBUG_ONLY\<close> adds to \<^verbatim>\<open>split\<close>, \<^verbatim>\<open>merge\<close> and \<^verbatim>\<open>find\<close>,
  with its assertion \<^verbatim>\<open>recur_count < 200\<close>, is left out.

  A tree is owned exclusively through \<^verbatim>\<open>_root\<close> and the child slots, and no node is
  reachable along two paths, so a \<^verbatim>\<open>TreapNode*\<close> is modelled by the tree it points to:
  \<open>nullptr\<close> or a node with its five fields in the order of the class. A pointer
  handed out by \<^verbatim>\<open>find\<close>, \<^verbatim>\<open>closest_leq\<close> or a traversal is the subtree at that node.
\<close>

subsection \<open>Nodes, comparator, container state\<close>

datatype ('k, 'v) TreapNode =
    nullptr
  | TreapNode (priority: "64 word") (key: 'k) (val: 'v)
      (left: "('k, 'v) TreapNode") (right: "('k, 'v) TreapNode")

text \<open>
  \<^verbatim>\<open>COMPARATOR::cmp(a, b)\<close> is a template parameter. The header requires of it an int
  below zero when \<open>a < b\<close>, zero when \<open>a = b\<close> and above zero when \<open>a > b\<close>; the keys
  are taken from a linear order and \<open>cmp\<close> returns the sign.
\<close>

definition cmp :: "'k::linorder \<Rightarrow> 'k \<Rightarrow> int" where
  "cmp a b = (if a < b then - 1 else if a = b then 0 else 1)"

text \<open>
  The members \<^verbatim>\<open>_root\<close>, \<^verbatim>\<open>_prng_seed\<close> and \<^verbatim>\<open>_node_count\<close>. The allocator member has
  no state of its own. \<^verbatim>\<open>_node_count\<close> is a C++ \<^verbatim>\<open>int\<close>; it is modelled by an
  unbounded integer, which agrees with the source as long as the count stays below
  \<open>2^31\<close> (beyond that the increment is undefined behaviour in C++).
\<close>

record ('k, 'v) Treap =
  root :: "('k, 'v) TreapNode"
  prng_seed :: "64 word"
  node_count :: int

definition Treap :: "64 word \<Rightarrow> ('k, 'v) Treap" where
  "Treap seed = \<lparr>root = nullptr, prng_seed = seed, node_count = 0\<rparr>"

subsection \<open>Priority generator\<close>

definition PrngMult :: "64 word" where
  "PrngMult = 0x5DEECE66D"

definition PrngAdd :: "64 word" where
  "PrngAdd = 0xB"

definition PrngModPower :: nat where
  "PrngModPower = 48"

definition PrngModMask :: "64 word" where
  "PrngModMask = push_bit PrngModPower 1 - 1"

text \<open>The assignment to \<^verbatim>\<open>_prng_seed\<close> inside \<^verbatim>\<open>prng_next\<close>, on the seed alone.\<close>

definition prng_step :: "64 word \<Rightarrow> 64 word" where
  "prng_step s = (PrngMult * s + PrngAdd) AND PrngModMask"

definition prng_next :: "('k, 'v) Treap \<Rightarrow> 64 word \<times> ('k, 'v) Treap" where
  "prng_next t =
     (let t' = t\<lparr>prng_seed := prng_step (prng_seed t)\<rparr>
      in (prng_seed t', t'))"

subsection \<open>Split, merge, find\<close>

datatype SplitMode = LT | LEQ

type_synonym ('k, 'v) node_pair = "('k, 'v) TreapNode \<times> ('k, 'v) TreapNode"

text \<open>
  \<^verbatim>\<open>split\<close> overwrites one child slot of \<^verbatim>\<open>head\<close> and returns \<^verbatim>\<open>head\<close> on one
  side; the pair is \<open>(left, right)\<close>.
\<close>

fun split :: "('k::linorder, 'v) TreapNode \<Rightarrow> 'k \<Rightarrow> SplitMode \<Rightarrow> ('k, 'v) node_pair" where
  "split nullptr k mode = (nullptr, nullptr)"
| "split (TreapNode p hk hv l r) k mode =
     (if (cmp hk k \<le> 0 \<and> mode = LEQ) \<or> (cmp hk k < 0 \<and> mode = LT)
      then (let pr = split r k mode in (TreapNode p hk hv l (fst pr), snd pr))
      else (let pr = split l k mode in (fst pr, TreapNode p hk hv (snd pr) r)))"

fun merge :: "('k, 'v) TreapNode \<Rightarrow> ('k, 'v) TreapNode \<Rightarrow> ('k, 'v) TreapNode" where
  "merge nullptr rt = rt"
| "merge (TreapNode lp lk lv ll lr) nullptr = TreapNode lp lk lv ll lr"
| "merge (TreapNode lp lk lv ll lr) (TreapNode rp rk rv rl rr) =
     (if lp > rp
      then TreapNode lp lk lv ll (merge lr (TreapNode rp rk rv rl rr))
      else TreapNode rp rk rv (merge (TreapNode lp lk lv ll lr) rl) rr)"

text \<open>The static \<^verbatim>\<open>find(node, k)\<close>; the result is the node found or \<open>nullptr\<close>.\<close>

fun find_node :: "('k::linorder, 'v) TreapNode \<Rightarrow> 'k \<Rightarrow> ('k, 'v) TreapNode" where
  "find_node nullptr k = nullptr"
| "find_node (TreapNode p nk nv l r) k =
     (let key_cmp_k = cmp nk k
      in if key_cmp_k = 0 then TreapNode p nk nv l r
         else if key_cmp_k < 0 then find_node r k
         else find_node l k)"

text \<open>
  \<^verbatim>\<open>found->_value = v\<close> for \<^verbatim>\<open>found = find(_root, k)\<close>: the write lands in the node
  that the descent of \<open>find_node\<close> reaches, so the tree after it is rebuilt along the
  same descent with that one field replaced.
\<close>

fun assign_value :: "('k::linorder, 'v) TreapNode \<Rightarrow> 'k \<Rightarrow> 'v \<Rightarrow> ('k, 'v) TreapNode" where
  "assign_value nullptr k v = nullptr"
| "assign_value (TreapNode p nk nv l r) k v =
     (let key_cmp_k = cmp nk k
      in if key_cmp_k = 0 then TreapNode p nk v l r
         else if key_cmp_k < 0 then TreapNode p nk nv l (assign_value r k v)
         else TreapNode p nk nv (assign_value l k v) r)"

subsection \<open>Public operations\<close>

text \<open>
  The header requires of the allocator that it checks for out-of-memory and exits, so
  \<^verbatim>\<open>allocate\<close> returns storage whenever it returns and is no branch of the model. The new
  node of \<^verbatim>\<open>upsert\<close> has the priority that \<^verbatim>\<open>prng_next\<close> returns and empty child slots.
\<close>

definition upsert :: "'k::linorder \<Rightarrow> 'v \<Rightarrow> ('k, 'v) Treap \<Rightarrow> ('k, 'v) Treap" where
  "upsert k v t =
     (let found = find_node (root t) k
      in if found \<noteq> nullptr then t\<lparr>root := assign_value (root t) k v\<rparr>
         else
           (let t1 = t\<lparr>node_count := node_count t + 1\<rparr>;
                (prio, t2) = prng_next t1;
                node = TreapNode prio k v nullptr nullptr;
                split_up = split (root t2) k LEQ
            in t2\<lparr>root := merge (merge (fst split_up) node) (snd split_up)\<rparr>))"

text \<open>
  \<^verbatim>\<open>remove\<close> hands \<^verbatim>\<open>second_split.right\<close> to the allocator and drops it from the tree.
\<close>

definition remove :: "'k::linorder \<Rightarrow> ('k, 'v) Treap \<Rightarrow> ('k, 'v) Treap" where
  "remove k t =
     (let first_split = split (root t) k LEQ;
          second_split = split (fst first_split) k LT;
          t1 = (if snd second_split \<noteq> nullptr
                then t\<lparr>node_count := node_count t - 1\<rparr> else t)
      in t1\<lparr>root := merge (fst second_split) (snd first_split)\<rparr>)"

text \<open>
  The work list of \<^verbatim>\<open>remove_all\<close>: the head of the list is the top of \<^verbatim>\<open>to_delete\<close>,
  and the second argument collects the nodes passed to \<^verbatim>\<open>_allocator.free\<close>, in order.
\<close>

text \<open>\<open>to_delete_weight\<close> only serves the termination proofs of the work-list loops.\<close>

fun to_delete_weight :: "('k, 'v) TreapNode \<Rightarrow> nat" where
  "to_delete_weight n = 2 * size n + 1"

function remove_all_loop ::
  "('k, 'v) TreapNode list \<Rightarrow> ('k, 'v) TreapNode list \<Rightarrow> ('k, 'v) TreapNode list" where
  "remove_all_loop [] freed = freed"
| "remove_all_loop (nullptr # to_delete) freed = remove_all_loop to_delete freed"
| "remove_all_loop (TreapNode p k v l r # to_delete) freed =
     remove_all_loop (r # l # to_delete) (freed @ [TreapNode p k v l r])"
  by pat_completeness auto
termination
  by (relation "measure (\<lambda>(to_delete, freed). sum_list (map to_delete_weight to_delete))") auto

text \<open>
  \<^verbatim>\<open>remove_all\<close> assigns \<^verbatim>\<open>_node_count\<close> and nothing else: \<^verbatim>\<open>_root\<close> keeps its value.
  The result is the container state and the list of freed nodes.
\<close>

definition remove_all :: "('k, 'v) Treap \<Rightarrow> ('k, 'v) Treap \<times> ('k, 'v) TreapNode list" where
  "remove_all t =
     (let t1 = t\<lparr>node_count := 0\<rparr>
      in (t1, remove_all_loop [root t1] []))"

text \<open>
  The loop of \<^verbatim>\<open>closest_leq\<close> on \<open>pos\<close> and \<open>candidate\<close>. The comparator returns an
  int, so \<^verbatim>\<open>cmp_r > 0\<close> is what is left after the first two tests.
\<close>

fun closest_leq_loop ::
  "('k::linorder, 'v) TreapNode \<Rightarrow> ('k, 'v) TreapNode \<Rightarrow> 'k \<Rightarrow> ('k, 'v) TreapNode" where
  "closest_leq_loop nullptr candidate k = candidate"
| "closest_leq_loop (TreapNode p nk nv l r) candidate k =
     (let cmp_r = cmp nk k
      in if cmp_r = 0 then TreapNode p nk nv l r
         else if cmp_r < 0 then closest_leq_loop r (TreapNode p nk nv l r) k
         else closest_leq_loop l candidate k)"

definition closest_leq :: "('k::linorder, 'v) Treap \<Rightarrow> 'k \<Rightarrow> ('k, 'v) TreapNode" where
  "closest_leq t k = closest_leq_loop (root t) nullptr k"

subsection \<open>Traversals\<close>

text \<open>
  The visitor \<^verbatim>\<open>f\<close> is an arbitrary callback; a traversal is modelled by the list of
  nodes it passes to \<^verbatim>\<open>f\<close>, in order. The head of \<open>to_visit\<close> is the top of the stack.
  \<^verbatim>\<open>pop\<close> on an empty stack and a read through \<open>nullptr\<close> are the result \<open>None\<close>.
  \<open>pending\<close> only serves the termination proofs: the nodes still to come once a
  stacked node is popped.
\<close>

fun pending :: "('k, 'v) TreapNode \<Rightarrow> nat" where
  "pending nullptr = 0"
| "pending (TreapNode p k v l r) = 1 + size r"

text \<open>The inner loop of \<^verbatim>\<open>visit_in_order\<close>: push the left spine of \<open>head\<close>.\<close>

fun descend_left ::
  "('k, 'v) TreapNode \<Rightarrow> ('k, 'v) TreapNode list \<Rightarrow> ('k, 'v) TreapNode list" where
  "descend_left nullptr to_visit = to_visit"
| "descend_left (TreapNode p k v l r) to_visit =
     descend_left l (TreapNode p k v l r # to_visit)"

function visit_in_order_loop ::
  "('k, 'v) TreapNode list \<Rightarrow> ('k, 'v) TreapNode \<Rightarrow> ('k, 'v) TreapNode list
     \<Rightarrow> ('k, 'v) TreapNode list option" where
  "visit_in_order_loop to_visit head visited =
     (if \<not> (to_visit \<noteq> [] \<or> head \<noteq> nullptr) then Some visited
      else
        (case descend_left head to_visit of
           [] \<Rightarrow> None
         | nullptr # to_visit' \<Rightarrow> None
         | TreapNode p k v l r # to_visit' \<Rightarrow>
             visit_in_order_loop to_visit' r (visited @ [TreapNode p k v l r])))"
  by pat_completeness auto
termination
proof (relation "measure (\<lambda>(to_visit, head, visited). size head + sum_list (map pending to_visit))")
  show "wf (measure (\<lambda>(to_visit, head, visited). size head + sum_list (map pending to_visit)))"
    by simp
next
  fix to_visit :: "('k, 'v) TreapNode list" and head visited x21 to_visit' p k v l r
  assume d: "descend_left head to_visit = x21 # to_visit'" and x: "x21 = TreapNode p k v l r"
  have w: "sum_list (map pending (descend_left h st)) = size h + sum_list (map pending st)"
    for h :: "('k, 'v) TreapNode" and st
    by (induction h st rule: descend_left.induct) simp_all
  from w [of head to_visit] d x
  show "((to_visit', r, visited @ [TreapNode p k v l r]), to_visit, head, visited)
          \<in> measure (\<lambda>(to_visit, head, visited). size head + sum_list (map pending to_visit))"
    by simp
qed

definition visit_in_order :: "('k, 'v) Treap \<Rightarrow> ('k, 'v) TreapNode list option" where
  "visit_in_order t = visit_in_order_loop [] (root t) []"

text \<open>
  The inner loop of \<^verbatim>\<open>visit_range_in_order\<close>: push \<open>head\<close> and go left while the key
  is not below \<open>from\<close>; a node below \<open>from\<close> is pushed and ends the descent.
\<close>

fun descend_from ::
  "'k::linorder \<Rightarrow> ('k, 'v) TreapNode \<Rightarrow> ('k, 'v) TreapNode list \<Rightarrow> ('k, 'v) TreapNode list" where
  "descend_from from nullptr to_visit = to_visit"
| "descend_from from (TreapNode p k v l r) to_visit =
     (let cmp_from = cmp k from
      in if cmp_from \<ge> 0 then descend_from from l (TreapNode p k v l r # to_visit)
         else TreapNode p k v l r # to_visit)"

function visit_range_in_order_loop ::
  "'k::linorder \<Rightarrow> 'k \<Rightarrow> ('k, 'v) TreapNode list \<Rightarrow> ('k, 'v) TreapNode
     \<Rightarrow> ('k, 'v) TreapNode list \<Rightarrow> ('k, 'v) TreapNode list option" where
  "visit_range_in_order_loop from to to_visit head visited =
     (if \<not> (to_visit \<noteq> [] \<or> head \<noteq> nullptr) then Some visited
      else
        (case descend_from from head to_visit of
           [] \<Rightarrow> None
         | nullptr # to_visit' \<Rightarrow> None
         | TreapNode p k v l r # to_visit' \<Rightarrow>
             (let cmp_from = cmp k from;
                  cmp_to = cmp k to;
                  visited' = (if cmp_from \<ge> 0 \<and> cmp_to < 0
                              then visited @ [TreapNode p k v l r] else visited)
              in if cmp_to < 0
                 then visit_range_in_order_loop from to to_visit' r visited'
                 else visit_range_in_order_loop from to to_visit' nullptr visited')))"
  by pat_completeness auto
termination
proof (relation "measure (\<lambda>(from, to, to_visit, head, visited).
                     size head + sum_list (map pending to_visit))", goal_cases)
  case 1
  show ?case by simp
next
  case (2 fr upto to_visit head visited n to_visit' p k v l r)
  have "sum_list (map pending (descend_from f h st)) \<le> size h + sum_list (map pending st)"
    for f h and st :: "('a, 'b) TreapNode list"
    by (induction f h st rule: descend_from.induct) (auto simp: Let_def)
  from this [of fr head to_visit] 2(2,3) show ?case by simp
next
  case (3 fr upto to_visit head visited n to_visit' p k v l r)
  have "sum_list (map pending (descend_from f h st)) \<le> size h + sum_list (map pending st)"
    for f h and st :: "('a, 'b) TreapNode list"
    by (induction f h st rule: descend_from.induct) (auto simp: Let_def)
  from this [of fr head to_visit] 3(2,3) show ?case by simp
qed

declare visit_in_order_loop.simps [simp del]

declare visit_range_in_order_loop.simps [simp del]

definition visit_range_in_order ::
  "'k::linorder \<Rightarrow> 'k \<Rightarrow> ('k, 'v) Treap \<Rightarrow> ('k, 'v) TreapNode list option" where
  "visit_range_in_order from to t = visit_range_in_order_loop from to [] (root t) []"

subsection \<open>The in-order pass of the self-check\<close>

text \<open>
  The three locals that the visitor of \<^verbatim>\<open>verify_self\<close> captures by reference, the body
  of that visitor, and the pass itself: the visitor run over the nodes that
  \<^verbatim>\<open>visit_in_order\<close> hands out.
\<close>

record ('k, 'v) in_order_pass =
  last_seen :: "('k, 'v) TreapNode"
  failed :: bool
  seen_count :: int

definition verify_visitor ::
  "('k::linorder, 'v) TreapNode \<Rightarrow> ('k, 'v) in_order_pass \<Rightarrow> ('k, 'v) in_order_pass" where
  "verify_visitor node c =
     (let c1 = c\<lparr>seen_count := seen_count c + 1\<rparr>
      in if last_seen c1 = nullptr then c1\<lparr>last_seen := node\<rparr>
         else
           (let c2 = (if cmp (key (last_seen c1)) (key node) > 0
                      then c1\<lparr>failed := False\<rparr> else c1)
            in c2\<lparr>last_seen := node\<rparr>))"

definition verify_self_in_order :: "('k::linorder, 'v) Treap \<Rightarrow> ('k, 'v) in_order_pass option" where
  "verify_self_in_order t =
     map_option
       (\<lambda>visited. fold verify_visitor visited
          \<lparr>last_seen = nullptr, failed = False, seen_count = 0\<rparr>)
       (visit_in_order t)"

subsection \<open>The self-check\<close>











subsection \<open>Sequences of calls\<close>

text \<open>
  The calls a client can make that the claims below range over. \<^verbatim>\<open>find\<close> is static,
  \<^verbatim>\<open>visit_in_order\<close> is const, and \<^verbatim>\<open>closest_leq\<close> and \<^verbatim>\<open>visit_range_in_order\<close> assign
  to no member and to no node, so these four return the state they were given.
\<close>

datatype ('k, 'v) call =
    Upsert 'k 'v
  | Remove 'k
  | Find 'k
  | ClosestLeq 'k
  | VisitInOrder
  | VisitRangeInOrder 'k 'k

fun perform :: "('k::linorder, 'v) call \<Rightarrow> ('k, 'v) Treap \<Rightarrow> ('k, 'v) Treap" where
  "perform (Upsert k v) t = upsert k v t"
| "perform (Remove k) t = remove k t"
| "perform (Find k) t = t"
| "perform (ClosestLeq k) t = t"
| "perform VisitInOrder t = t"
| "perform (VisitRangeInOrder from to) t = t"

definition run :: "('k::linorder, 'v) call list \<Rightarrow> ('k, 'v) Treap \<Rightarrow> ('k, 'v) Treap" where
  "run calls t = fold perform calls t"

text \<open>The number of calls in a sequence that are an \<open>upsert\<close> of a key \<open>find\<close> does not find.\<close>

fun insertions :: "('k::linorder, 'v) call list \<Rightarrow> ('k, 'v) Treap \<Rightarrow> nat" where
  "insertions [] t = 0"
| "insertions (Upsert k v # calls) t =
     (if find_node (root t) k = nullptr then 1 else 0) + insertions calls (upsert k v t)"
| "insertions (c # calls) t = insertions calls (perform c t)"



section \<open>Specification vocabulary\<close>

text \<open>The nodes of a tree from left to right, and what each carries.\<close>

fun in_order :: "('k, 'v) TreapNode \<Rightarrow> ('k, 'v) TreapNode list" where
  "in_order nullptr = []"
| "in_order (TreapNode p k v l r) = in_order l @ [TreapNode p k v l r] @ in_order r"

fun entries :: "('k, 'v) TreapNode \<Rightarrow> ('k \<times> 'v \<times> 64 word) list" where
  "entries nullptr = []"
| "entries (TreapNode p k v l r) = entries l @ [(k, v, p)] @ entries r"

definition keys :: "('k, 'v) TreapNode \<Rightarrow> 'k list" where
  "keys n = map fst (entries n)"

definition prios :: "('k, 'v) TreapNode \<Rightarrow> 64 word set" where
  "prios n = set (map (\<lambda>e. snd (snd e)) (entries n))"

text \<open>Search-tree invariant: the keys from left to right increase strictly.\<close>

definition bst :: "('k::linorder, 'v) TreapNode \<Rightarrow> bool" where
  "bst n = sorted_wrt (<) (keys n)"

text \<open>
  Heap invariant, with ties allowed: no child has a larger priority than its parent.
  \<open>below p n\<close> is the test for one child slot \<open>n\<close> of a parent with priority \<open>p\<close>.
\<close>

fun below :: "64 word \<Rightarrow> ('k, 'v) TreapNode \<Rightarrow> bool" where
  "below p nullptr = True"
| "below p (TreapNode q k v l r) = (q \<le> p)"

fun heap :: "('k, 'v) TreapNode \<Rightarrow> bool" where
  "heap nullptr = True"
| "heap (TreapNode p k v l r) = (below p l \<and> below p r \<and> heap l \<and> heap r)"




text \<open>The invariants of the container state as the specification lists them.\<close>

definition treap_invariants :: "('k::linorder, 'v) Treap \<Rightarrow> bool" where
  "treap_invariants t =
     (bst (root t) \<and> heap (root t) \<and> node_count t = int (length (in_order (root t))))"

text \<open>The tree with the values erased: what is left is its shape, keys and priorities.\<close>

fun shape :: "('k, 'v) TreapNode \<Rightarrow> ('k, unit) TreapNode" where
  "shape nullptr = nullptr"
| "shape (TreapNode p k v l r) = TreapNode p k () (shape l) (shape r)"

section \<open>Concrete inputs\<close>

text \<open>
  A container over the keys 5, 10, 20, 30, 40 that satisfies the search-tree invariant
  and the heap invariant, with no two priorities equal.
\<close>

definition example_tree :: "(nat, string) TreapNode" where
  "example_tree =
     TreapNode 90 20 ''c''
       (TreapNode 50 10 ''b'' (TreapNode 20 5 ''a'' nullptr nullptr) nullptr)
       (TreapNode 70 40 ''e'' (TreapNode 30 30 ''d'' nullptr nullptr) nullptr)"

definition example_treap :: "(nat, string) Treap" where
  "example_treap = \<lparr>root = example_tree, prng_seed = 42, node_count = 5\<rparr>"

text \<open>A container whose keys from left to right are 30, 10, 20: not a search tree.\<close>

definition unsorted_treap :: "(nat, string) Treap" where
  "unsorted_treap =
     \<lparr>root = TreapNode 9 10 ''a'' (TreapNode 5 30 ''b'' nullptr nullptr)
               (TreapNode 4 20 ''c'' nullptr nullptr),
      prng_seed = 42, node_count = 3\<rparr>"

text \<open>A sequence of calls for the concrete instances below.\<close>

definition example_calls :: "(nat, nat) call list" where
  "example_calls = [Upsert 5 0, Upsert 3 1, Upsert 8 2, Remove 5, Upsert 9 2]"




section \<open>Split and merge keep the entries\<close>

lemma entries_split:
  "entries (fst (split t k m)) @ entries (snd (split t k m)) = entries t"
  by (induction t) (auto simp: Let_def)

lemma entries_merge: "entries (merge l r) = entries l @ entries r"
  by (induction l r rule: merge.induct) auto

lemma keys_simps [simp]:
  "keys nullptr = []"
  "keys (TreapNode p k v l r) = keys l @ [k] @ keys r"
  by (simp_all add: keys_def)

lemma keys_split: "keys (fst (split t k m)) @ keys (snd (split t k m)) = keys t"
  using entries_split [of t k m, THEN arg_cong, of "map fst"] by (simp add: keys_def)

lemma keys_merge: "keys (merge l r) = keys l @ keys r"
  by (simp add: keys_def entries_merge)

text \<open>
  C2. Merging the two trees that \<open>split\<close> returns gives a tree with exactly the keys
  of the tree that was split. This holds for every tree, every key (inside or outside
  the key range, present or absent) and both split modes; the treap invariants are
  not needed for it.
\<close>

theorem split_merge_key_set:
  "set (keys (merge (fst (split T k m)) (snd (split T k m)))) = set (keys T)"
  by (simp add: keys_merge keys_split)

theorem split_merge_key_set_witness:
  "set (keys (merge (fst (split example_tree 20 LEQ)) (snd (split example_tree 20 LEQ))))
     = {5, 10, 20, 30, 40}"
  using split_merge_key_set [of example_tree 20 LEQ]
  by (simp add: example_tree_def insert_commute)

section \<open>The stack traversal visits the nodes from left to right\<close>

lemma descend_left_nonempty:
  "to_visit \<noteq> [] \<or> head \<noteq> nullptr \<Longrightarrow> descend_left head to_visit \<noteq> []"
  by (induction head to_visit rule: descend_left.induct) auto

lemma descend_left_no_null:
  "nullptr \<notin> set to_visit \<Longrightarrow> nullptr \<notin> set (descend_left head to_visit)"
  by (induction head to_visit rule: descend_left.induct) auto

lemma descend_left_unwind:
  "concat (map (\<lambda>n. n # in_order (right n)) (descend_left head to_visit))
     = in_order head @ concat (map (\<lambda>n. n # in_order (right n)) to_visit)"
  by (induction head to_visit rule: descend_left.induct) auto

lemma visit_in_order_loop_eq:
  "nullptr \<notin> set to_visit \<Longrightarrow>
   visit_in_order_loop to_visit head visited
     = Some (visited @ in_order head @ concat (map (\<lambda>n. n # in_order (right n)) to_visit))"
proof (induction to_visit head visited rule: visit_in_order_loop.induct)
  case (1 to_visit head visited)
  show ?case
  proof (cases "to_visit \<noteq> [] \<or> head \<noteq> nullptr")
    case False
    then show ?thesis by (simp add: visit_in_order_loop.simps)
  next
    case True
    then obtain n rest where d: "descend_left head to_visit = n # rest"
      using descend_left_nonempty [of to_visit head] by (cases "descend_left head to_visit") auto
    from descend_left_no_null [OF "1.prems", of head] d
    have nn: "n \<noteq> nullptr" and nr: "nullptr \<notin> set rest" by auto
    then obtain p k v l r where n: "n = TreapNode p k v l r" by (cases n) auto
    from descend_left_unwind [of head to_visit] d n
    have u: "in_order head @ concat (map (\<lambda>n. n # in_order (right n)) to_visit)
               = TreapNode p k v l r # in_order r @ concat (map (\<lambda>n. n # in_order (right n)) rest)"
      by simp
    have "visit_in_order_loop to_visit head visited
            = visit_in_order_loop rest r (visited @ [TreapNode p k v l r])"
      using True d n by (subst visit_in_order_loop.simps) simp
    also have "\<dots> = Some ((visited @ [TreapNode p k v l r]) @ in_order r
                         @ concat (map (\<lambda>n. n # in_order (right n)) rest))"
      using "1.IH" [OF _ d n nr] True by simp
    finally show ?thesis using u by simp
  qed
qed

lemma visit_in_order_eq: "visit_in_order t = Some (in_order (root t))"
  by (simp add: visit_in_order_def visit_in_order_loop_eq)

section \<open>Keys, entries and the search-tree invariant\<close>

lemma map_key_in_order: "map key (in_order n) = keys n"
  by (induction n) auto

lemma length_in_order: "length (in_order n) = length (keys n)"
  by (metis length_map map_key_in_order)

lemma map_entry_in_order: "map (\<lambda>n. (key n, val n, priority n)) (in_order n) = entries n"
  by (induction n) auto

lemma in_order_no_null: "nullptr \<notin> set (in_order n)"
  by (induction n) auto

lemma bst_node:
  "bst (TreapNode p k v l r)
     = (bst l \<and> bst r \<and> (\<forall>x\<in>set (keys l). x < k) \<and> (\<forall>x\<in>set (keys r). k < x))"
  by (auto simp: bst_def sorted_wrt_append dest: order_less_trans)

lemma bst_nullptr [simp]: "bst nullptr"
  by (simp add: bst_def)

lemma split_bounds:
  "bst t \<Longrightarrow>
   (\<forall>x\<in>set (keys (fst (split t k m))). if m = LEQ then x \<le> k else x < k) \<and>
   (\<forall>x\<in>set (keys (snd (split t k m))). if m = LEQ then k < x else k \<le> x)"
proof (induction t)
  case nullptr
  then show ?case by simp
next
  case (TreapNode p hk hv l r)
  then show ?case
    by (cases m) (auto simp: bst_node cmp_def Let_def split: if_splits)
qed

lemma bst_split:
  assumes "bst t"
  shows "bst (fst (split t k m))" and "bst (snd (split t k m))"
  using assms keys_split [of t k m] unfolding bst_def
  by (metis sorted_wrt_append)+

lemma bst_merge:
  "bst l \<Longrightarrow> bst r \<Longrightarrow> (\<forall>x\<in>set (keys l). \<forall>y\<in>set (keys r). x < y) \<Longrightarrow> bst (merge l r)"
  by (simp add: bst_def keys_merge sorted_wrt_append)

section \<open>find\<close>

lemma find_node_key: "find_node t k \<noteq> nullptr \<Longrightarrow> key (find_node t k) = k"
  by (induction t) (auto simp: Let_def cmp_def split: if_splits)

lemma find_node_entry:
  "find_node t k = TreapNode p kk v l r \<Longrightarrow> (kk, v, p) \<in> set (entries t)"
  by (induction t) (auto simp: Let_def cmp_def split: if_splits)

lemma find_node_in_order:
  "find_node t k \<noteq> nullptr \<Longrightarrow> find_node t k \<in> set (in_order t)"
  by (induction t) (auto simp: Let_def cmp_def split: if_splits)

lemma find_node_iff: "bst t \<Longrightarrow> (find_node t k \<noteq> nullptr) = (k \<in> set (keys t))"
  by (induction t) (auto simp: Let_def cmp_def bst_node)

lemma keys_entries: "k \<in> set (keys t) = (\<exists>v p. (k, v, p) \<in> set (entries t))"
  by (force simp: keys_def)

lemma bst_entry_unique:
  "bst t \<Longrightarrow> (k, v, p) \<in> set (entries t) \<Longrightarrow> (k, v', p') \<in> set (entries t)
     \<Longrightarrow> v = v' \<and> p = p'"
proof -
  assume "bst t" and a: "(k, v, p) \<in> set (entries t)" and b: "(k, v', p') \<in> set (entries t)"
  then have "distinct (map fst (entries t))"
    unfolding bst_def keys_def by (simp add: strict_sorted_iff)
  from map_of_is_SomeI [OF this a] map_of_is_SomeI [OF this b] show ?thesis by simp
qed

lemma find_node_of_entry:
  assumes "bst t" and "(k, v, p) \<in> set (entries t)"
  shows "find_node t k \<noteq> nullptr \<and> val (find_node t k) = v \<and> priority (find_node t k) = p"
proof -
  from assms have nn: "find_node t k \<noteq> nullptr"
    using find_node_iff keys_entries by metis
  then obtain p' kk v' l r where f: "find_node t k = TreapNode p' kk v' l r"
    by (cases "find_node t k") auto
  with find_node_key [OF nn] have "kk = k" by simp
  with find_node_entry [OF f] have "(k, v', p') \<in> set (entries t)" by simp
  from bst_entry_unique [OF assms(1) assms(2) this] f show ?thesis by simp
qed

section \<open>Priorities and the heap invariant\<close>

lemma prios_simps [simp]:
  "prios nullptr = {}"
  "prios (TreapNode p k v l r) = insert p (prios l \<union> prios r)"
  by (auto simp: prios_def)

lemma prios_split: "prios (fst (split t k m)) \<union> prios (snd (split t k m)) = prios t"
  using entries_split [of t k m, THEN arg_cong, of "\<lambda>es. set (map (\<lambda>e. snd (snd e)) es)"]
  by (simp add: prios_def)

lemma prios_merge: "prios (merge l r) = prios l \<union> prios r"
  by (simp add: prios_def entries_merge)

lemma below_prios: "(\<forall>q\<in>prios t. q \<le> p) \<Longrightarrow> below p t"
  by (cases t) auto

lemma heap_prios: "heap t \<Longrightarrow> below p t \<Longrightarrow> \<forall>q\<in>prios t. q \<le> p"
  by (induction t arbitrary: p) fastforce+

lemma heap_split:
  "heap t \<Longrightarrow> heap (fst (split t k m)) \<and> heap (snd (split t k m))"
proof (induction t)
  case nullptr
  then show ?case by simp
next
  case (TreapNode p hk hv l r)
  have l: "\<forall>q\<in>prios l. q \<le> p" and r: "\<forall>q\<in>prios r. q \<le> p"
    using TreapNode.prems heap_prios by auto
  have "below p (fst (split r k m))" "below p (snd (split l k m))"
    using l r prios_split [of r k m] prios_split [of l k m] by (auto intro!: below_prios)
  with TreapNode show ?case by (auto simp: Let_def)
qed

lemma heap_merge: "heap l \<Longrightarrow> heap r \<Longrightarrow> heap (merge l r)"
proof (induction l r rule: merge.induct)
  case (3 lp lk lv ll lr rp rk rv rl rr)
  show ?case
  proof (cases "lp > rp")
    case True
    have "\<forall>q\<in>prios lr. q \<le> lp" using "3.prems"(1) heap_prios by auto
    moreover have "\<forall>q\<in>prios (TreapNode rp rk rv rl rr). q \<le> lp"
      using heap_prios [OF "3.prems"(2), of lp] True by simp
    ultimately have "below lp (merge lr (TreapNode rp rk rv rl rr))"
      by (intro below_prios) (auto simp: prios_merge simp del: prios_simps)
    with 3 True show ?thesis by simp
  next
    case False
    have "\<forall>q\<in>prios rl. q \<le> rp" using "3.prems"(2) heap_prios by auto
    moreover have "\<forall>q\<in>prios (TreapNode lp lk lv ll lr). q \<le> rp"
      using heap_prios [OF "3.prems"(1), of rp] False by simp
    ultimately have "below rp (merge (TreapNode lp lk lv ll lr) rl)"
      by (intro below_prios) (auto simp: prios_merge simp del: prios_simps)
    with 3 False show ?thesis by simp
  qed
qed simp_all

section \<open>What split, upsert and remove do to the entries\<close>

lemma filter_of_partition:
  "xs @ ys = zs \<Longrightarrow> \<forall>x\<in>set xs. P x \<Longrightarrow> \<forall>y\<in>set ys. \<not> P y
     \<Longrightarrow> filter P zs = xs \<and> filter (\<lambda>z. \<not> P z) zs = ys"
  by (auto simp: filter_empty_conv)

lemma fst_entries: "fst ` set (entries t) = set (keys t)"
  by (simp add: keys_def)

lemma entries_split_LEQ:
  assumes "bst t"
  shows "entries (fst (split t k LEQ)) = filter (\<lambda>e. fst e \<le> k) (entries t)"
    and "entries (snd (split t k LEQ)) = filter (\<lambda>e. \<not> fst e \<le> k) (entries t)"
proof -
  from split_bounds [OF assms, of k LEQ]
  have "\<forall>e\<in>set (entries (fst (split t k LEQ))). fst e \<le> k"
    and "\<forall>e\<in>set (entries (snd (split t k LEQ))). \<not> fst e \<le> k"
    unfolding fst_entries [symmetric] by auto
  from filter_of_partition [OF entries_split this]
  show "entries (fst (split t k LEQ)) = filter (\<lambda>e. fst e \<le> k) (entries t)"
    and "entries (snd (split t k LEQ)) = filter (\<lambda>e. \<not> fst e \<le> k) (entries t)"
    by simp_all
qed

lemma entries_split_LT:
  assumes "bst t"
  shows "entries (fst (split t k LT)) = filter (\<lambda>e. fst e < k) (entries t)"
    and "entries (snd (split t k LT)) = filter (\<lambda>e. \<not> fst e < k) (entries t)"
proof -
  from split_bounds [OF assms, of k LT]
  have "\<forall>e\<in>set (entries (fst (split t k LT))). fst e < k"
    and "\<forall>e\<in>set (entries (snd (split t k LT))). \<not> fst e < k"
    unfolding fst_entries [symmetric] by auto
  from filter_of_partition [OF entries_split this]
  show "entries (fst (split t k LT)) = filter (\<lambda>e. fst e < k) (entries t)"
    and "entries (snd (split t k LT)) = filter (\<lambda>e. \<not> fst e < k) (entries t)"
    by simp_all
qed

lemma entries_nullptr_iff: "entries t = [] \<longleftrightarrow> t = nullptr"
  by (cases t) auto

lemma length_in_order_entries: "length (in_order t) = length (entries t)"
  by (simp add: length_in_order keys_def)

text \<open>The entries with key \<open>k\<close> in a search tree: none, or exactly one.\<close>

lemma bst_filter_key:
  assumes "bst t"
  shows "length (filter (\<lambda>e. fst e = k) (entries t)) = (if k \<in> set (keys t) then 1 else 0)"
proof -
  from assms have d: "distinct (map fst (entries t))"
    unfolding bst_def keys_def by (simp add: strict_sorted_iff)
  have "length (filter (\<lambda>e. fst e = k) es) = (if k \<in> fst ` set es then 1 else 0)"
    if "distinct (map fst es)" for es :: "('a \<times> 'b \<times> 64 word) list"
    using that by (induction es) (auto simp: image_iff)
  from this [OF d] show ?thesis by (simp add: fst_entries)
qed

lemma sorted_filter_around:
  fixes es :: "('k::linorder \<times> 'b) list"
  shows "sorted_wrt (<) (map fst es) \<Longrightarrow>
    filter (\<lambda>e. fst e < k) es @ filter (\<lambda>e. \<not> fst e \<le> k) es = filter (\<lambda>e. fst e \<noteq> k) es"
proof (induction es)
  case Nil
  then show ?case by simp
next
  case (Cons e es)
  then have IH: "filter (\<lambda>e. fst e < k) es @ filter (\<lambda>e. \<not> fst e \<le> k) es
                   = filter (\<lambda>e. fst e \<noteq> k) es"
    and above: "\<forall>x\<in>set es. fst e < fst x"
    by auto
  show ?case
  proof (cases "fst e < k")
    case True
    with IH show ?thesis by auto
  next
    case False
    with above have "filter (\<lambda>e. fst e < k) es = []"
      by (auto simp: filter_empty_conv)
    with IH False show ?thesis by auto
  qed
qed

lemma remove_root_entries:
  assumes "bst (root t)"
  shows "entries (root (remove k t)) = filter (\<lambda>e. fst e \<noteq> k) (entries (root t))"
proof -
  let ?A = "fst (split (root t) k LEQ)"
  have A: "bst ?A" using assms by (rule bst_split)
  have "entries (root (remove k t)) = entries (fst (split ?A k LT)) @ entries (snd (split (root t) k LEQ))"
    by (simp add: remove_def Let_def entries_merge)
  also have "\<dots> = filter (\<lambda>e. fst e < k) (filter (\<lambda>e. fst e \<le> k) (entries (root t)))
                    @ filter (\<lambda>e. \<not> fst e \<le> k) (entries (root t))"
    by (simp add: entries_split_LT [OF A] entries_split_LEQ [OF assms])
  also have "\<dots> = filter (\<lambda>e. fst e \<noteq> k) (entries (root t))"
  proof -
    have "filter (\<lambda>e. fst e < k) (filter (\<lambda>e. fst e \<le> k) (entries (root t)))
            = filter (\<lambda>e. fst e < k) (entries (root t))"
      by (auto intro: filter_cong)
    with sorted_filter_around [of "entries (root t)" k] assms show ?thesis
      by (simp add: bst_def keys_def)
  qed
  finally show ?thesis .
qed

lemma remove_node_count:
  assumes "bst (root t)"
  shows "node_count (remove k t) = (if k \<in> set (keys (root t)) then node_count t - 1 else node_count t)"
proof -
  let ?A = "fst (split (root t) k LEQ)"
  let ?D = "snd (split ?A k LT)"
  have A: "bst ?A" using assms by (rule bst_split)
  have "entries ?D = filter (\<lambda>e. \<not> fst e < k) (filter (\<lambda>e. fst e \<le> k) (entries (root t)))"
    by (simp add: entries_split_LT [OF A] entries_split_LEQ [OF assms])
  also have "\<dots> = filter (\<lambda>e. fst e = k) (entries (root t))"
    by (auto intro: filter_cong)
  finally have "length (entries ?D) = (if k \<in> set (keys (root t)) then 1 else 0)"
    by (simp add: bst_filter_key [OF assms])
  then have "?D \<noteq> nullptr \<longleftrightarrow> k \<in> set (keys (root t))"
    using entries_nullptr_iff [of ?D] by (auto split: if_splits)
  then show ?thesis by (simp add: remove_def Let_def)
qed

lemma remove_prng_seed: "prng_seed (remove k t) = prng_seed t"
  by (simp add: remove_def Let_def)

lemma treap_invariants_remove:
  assumes "treap_invariants t"
  shows "treap_invariants (remove k t)"
proof -
  from assms have b: "bst (root t)" and h: "heap (root t)"
    and c: "node_count t = int (length (in_order (root t)))"
    by (simp_all add: treap_invariants_def)
  have e: "entries (root (remove k t)) = filter (\<lambda>e. fst e \<noteq> k) (entries (root t))"
    using b by (rule remove_root_entries)
  have "keys (root (remove k t)) = filter (\<lambda>x. x \<noteq> k) (keys (root t))"
    by (simp add: keys_def e filter_map comp_def)
  with b have b': "bst (root (remove k t))"
    by (simp add: bst_def sorted_wrt_filter)
  have h': "heap (root (remove k t))"
    using h by (simp add: remove_def Let_def heap_merge heap_split)
  have "length (entries (root t))
          = length (filter (\<lambda>e. fst e \<noteq> k) (entries (root t)))
            + length (filter (\<lambda>e. fst e = k) (entries (root t)))"
    using sum_length_filter_compl [of "\<lambda>e. fst e \<noteq> k" "entries (root t)"] by simp
  then have "int (length (entries (root (remove k t))))
          = int (length (entries (root t))) - (if k \<in> set (keys (root t)) then 1 else 0)"
    by (simp add: e bst_filter_key [OF b])
  with c have c': "node_count (remove k t) = int (length (in_order (root (remove k t))))"
    by (simp add: remove_node_count [OF b] length_in_order_entries)
  from b' h' c' show ?thesis by (simp add: treap_invariants_def)
qed

section \<open>upsert\<close>

lemma entries_assign_value:
  "map (\<lambda>e. (fst e, snd (snd e))) (entries (assign_value t k v))
     = map (\<lambda>e. (fst e, snd (snd e))) (entries t)"
  by (induction t) (auto simp: Let_def)

lemma keys_assign_value: "keys (assign_value t k v) = keys t"
  using entries_assign_value [of t k v, THEN arg_cong, of "map fst"]
  by (simp add: keys_def comp_def)

lemma below_assign_value: "below p (assign_value t k v) = below p t"
  by (cases t) (auto simp: Let_def)

lemma heap_assign_value: "heap (assign_value t k v) = heap t"
  by (induction t) (auto simp: Let_def below_assign_value)

lemma upsert_found:
  "find_node (root t) k \<noteq> nullptr \<Longrightarrow> upsert k v t = t\<lparr>root := assign_value (root t) k v\<rparr>"
  by (simp add: upsert_def Let_def)

lemma upsert_new:
  "find_node (root t) k = nullptr \<Longrightarrow>
   upsert k v t =
     \<lparr>root = merge (merge (fst (split (root t) k LEQ))
                          (TreapNode (prng_step (prng_seed t)) k v nullptr nullptr))
                   (snd (split (root t) k LEQ)),
      prng_seed = prng_step (prng_seed t),
      node_count = node_count t + 1\<rparr>"
  by (simp add: upsert_def Let_def prng_next_def)

lemma upsert_new_entries:
  assumes "bst (root t)" and "find_node (root t) k = nullptr"
  shows "entries (root (upsert k v t))
           = filter (\<lambda>e. fst e < k) (entries (root t)) @ [(k, v, prng_step (prng_seed t))]
             @ filter (\<lambda>e. k < fst e) (entries (root t))"
proof -
  from assms have "k \<notin> set (keys (root t))" using find_node_iff by metis
  then have "\<forall>e\<in>set (entries (root t)). fst e \<noteq> k"
    unfolding fst_entries [symmetric] by auto
  then have "filter (\<lambda>e. fst e \<le> k) (entries (root t)) = filter (\<lambda>e. fst e < k) (entries (root t))"
    and "filter (\<lambda>e. \<not> fst e \<le> k) (entries (root t)) = filter (\<lambda>e. k < fst e) (entries (root t))"
    by (auto intro!: filter_cong)
  then show ?thesis
    by (simp add: upsert_new [OF assms(2)] entries_merge entries_split_LEQ [OF assms(1)])
qed

lemma treap_invariants_upsert:
  assumes "treap_invariants t"
  shows "treap_invariants (upsert k v t)"
proof (cases "find_node (root t) k = nullptr")
  case False
  with assms show ?thesis
    by (simp add: upsert_found treap_invariants_def bst_def keys_assign_value heap_assign_value
        length_in_order)
next
  case True
  from assms have b: "bst (root t)" and h: "heap (root t)"
    and c: "node_count t = int (length (in_order (root t)))"
    by (simp_all add: treap_invariants_def)
  from True b have nk: "k \<notin> set (keys (root t))" using find_node_iff by metis
  have e: "entries (root (upsert k v t))
           = filter (\<lambda>e. fst e < k) (entries (root t)) @ [(k, v, prng_step (prng_seed t))]
             @ filter (\<lambda>e. k < fst e) (entries (root t))"
    using b True by (rule upsert_new_entries)
  have "keys (root (upsert k v t))
          = filter (\<lambda>x. x < k) (keys (root t)) @ [k] @ filter (\<lambda>x. k < x) (keys (root t))"
    by (simp add: keys_def e filter_map comp_def)
  with b have b': "bst (root (upsert k v t))"
    by (auto simp: bst_def sorted_wrt_append sorted_wrt_filter)
  have h': "heap (root (upsert k v t))"
    using h by (simp add: upsert_new [OF True] heap_merge heap_split)
  have "length (entries (root t))
          = length (filter (\<lambda>e. fst e < k) (entries (root t)))
            + length (filter (\<lambda>e. k < fst e) (entries (root t)))"
  proof -
    have "filter (\<lambda>e. \<not> fst e < k) (entries (root t)) = filter (\<lambda>e. k < fst e) (entries (root t))"
    proof -
      from nk have "\<forall>e\<in>set (entries (root t)). fst e \<noteq> k"
        unfolding fst_entries [symmetric] by auto
      then show ?thesis by (auto intro!: filter_cong)
    qed
    with sum_length_filter_compl [of "\<lambda>e. fst e < k" "entries (root t)"] show ?thesis by simp
  qed
  with c have c': "node_count (upsert k v t) = int (length (in_order (root (upsert k v t))))"
    by (simp add: length_in_order_entries e) (simp add: upsert_new [OF True])
  from b' h' c' show ?thesis by (simp add: treap_invariants_def)
qed

lemma treap_invariants_Treap: "treap_invariants (Treap seed)"
  by (simp add: treap_invariants_def Treap_def)

lemma treap_invariants_perform: "treap_invariants t \<Longrightarrow> treap_invariants (perform c t)"
  by (cases c) (simp_all add: treap_invariants_upsert treap_invariants_remove)

lemma treap_invariants_run: "treap_invariants t \<Longrightarrow> treap_invariants (run calls t)"
  unfolding run_def by (induction calls arbitrary: t) (simp_all add: treap_invariants_perform)

text \<open>
  C3. Start from an empty container and make any finite sequence of calls. After each
  of them (after the first \<open>n\<close> calls, for every \<open>n\<close>) the in-order traversal returns,
  the keys it visits increase strictly, their number is the tracked node count, and no
  node has a larger priority than its parent.
\<close>

theorem invariants_after_each_call:
  "\<exists>visited.
     visit_in_order (run (take n calls) (Treap seed)) = Some visited \<and>
     sorted_wrt (<) (map key visited) \<and>
     int (length visited) = node_count (run (take n calls) (Treap seed)) \<and>
     heap (root (run (take n calls) (Treap seed)))"
  using treap_invariants_run [OF treap_invariants_Treap, of "take n calls" seed]
  by (simp add: visit_in_order_eq treap_invariants_def bst_def map_key_in_order)

theorem invariants_after_each_call_witness:
  "\<exists>visited.
     visit_in_order (run (take 4 example_calls) (Treap 42)) = Some visited \<and>
     sorted_wrt (<) (map key visited) \<and> int (length visited) = 2 \<and>
     heap (root (run (take 4 example_calls) (Treap 42)))"
  using invariants_after_each_call [of 4 example_calls 42]
  by (simp add: example_calls_def run_def upsert_def remove_def Treap_def prng_next_def
      prng_step_def PrngMult_def PrngAdd_def PrngModMask_def PrngModPower_def cmp_def Let_def)

section \<open>The example container satisfies the invariants\<close>

lemma example_treap_bst: "bst (root example_treap)"
  by (simp add: example_treap_def example_tree_def bst_def)

lemma example_treap_invariants: "treap_invariants example_treap"
  by (simp add: treap_invariants_def example_treap_def example_tree_def bst_def)

section \<open>closest_leq\<close>

lemma in_order_keys: "n \<in> set (in_order t) \<Longrightarrow> key n \<in> set (keys t)"
  using map_key_in_order [of t] by (metis image_eqI set_map)

lemma keys_in_order: "x \<in> set (keys t) \<Longrightarrow> \<exists>n\<in>set (in_order t). key n = x"
  using map_key_in_order [of t] by (metis (no_types, lifting) image_iff set_map)

lemma closest_leq_loop_eq:
  "bst pos \<Longrightarrow>
   closest_leq_loop pos candidate k =
     (if filter (\<lambda>n. key n \<le> k) (in_order pos) = [] then candidate
      else last (filter (\<lambda>n. key n \<le> k) (in_order pos)))"
proof (induction pos arbitrary: candidate)
  case nullptr
  then show ?case by simp
next
  case (TreapNode p nk nv l r)
  from TreapNode.prems have bl: "bst l" and br: "bst r"
    and l: "\<forall>n\<in>set (in_order l). key n < nk" and r: "\<forall>n\<in>set (in_order r). nk < key n"
    by (auto simp: bst_node dest: in_order_keys)
  consider "nk = k" | "nk < k" | "k < nk" by (metis less_linear)
  then show ?case
  proof cases
    case 1
    with r have "filter (\<lambda>n. key n \<le> k) (in_order r) = []"
      by (auto simp: filter_empty_conv)
    with 1 show ?thesis by (simp add: cmp_def)
  next
    case 2
    then have "nk \<le> k" "nk \<noteq> k" by auto
    with 2 show ?thesis using TreapNode.IH(2) [OF br] by (simp add: cmp_def)
  next
    case 3
    with r have "filter (\<lambda>n. key n \<le> k) (in_order r) = []"
      by (auto simp: filter_empty_conv)
    moreover from 3 have "\<not> nk \<le> k" "nk \<noteq> k" "\<not> nk < k" by auto
    ultimately show ?thesis using TreapNode.IH(1) [OF bl] by (simp add: cmp_def)
  qed
qed

lemma sorted_last_greatest:
  "sorted_wrt (<) (map f ys) \<Longrightarrow> y \<in> set ys \<Longrightarrow> (f y :: 'a::linorder) \<le> f (last ys)"
proof (induction ys rule: rev_induct)
  case Nil
  then show ?case by simp
next
  case (snoc z zs)
  then show ?case by (auto simp: sorted_wrt_append)
qed

text \<open>
  C4. On a container whose tree satisfies the search-tree invariant, \<open>closest_leq t k\<close>
  is the node of the tree with key \<open>k\<close> when \<open>k\<close> is present; when \<open>k\<close> is absent and some
  key is smaller, it is the node with the largest key below \<open>k\<close>; and it is \<open>nullptr\<close>
  when every key of the tree exceeds \<open>k\<close>, which includes the empty tree.
\<close>

theorem closest_leq_spec:
  assumes "bst (root t)"
  shows "(k \<in> set (keys (root t)) \<longrightarrow>
            closest_leq t k \<in> set (in_order (root t)) \<and> key (closest_leq t k) = k) \<and>
         (k \<notin> set (keys (root t)) \<and> (\<exists>x\<in>set (keys (root t)). x < k) \<longrightarrow>
            closest_leq t k \<in> set (in_order (root t)) \<and>
            key (closest_leq t k) = Max {x \<in> set (keys (root t)). x < k}) \<and>
         ((\<forall>x\<in>set (keys (root t)). k < x) \<longrightarrow> closest_leq t k = nullptr)"
proof -
  let ?xs = "filter (\<lambda>n. key n \<le> k) (in_order (root t))"
  have c: "closest_leq t k = (if ?xs = [] then nullptr else last ?xs)"
    unfolding closest_leq_def by (rule closest_leq_loop_eq [OF assms])
  have s: "sorted_wrt (<) (map key ?xs)"
    using assms by (simp add: bst_def map_key_in_order [symmetric] sorted_wrt_map sorted_wrt_filter)
  have found: "closest_leq t k \<in> set (in_order (root t)) \<and> key (closest_leq t k) \<le> k \<and>
               (\<forall>x\<in>set (keys (root t)). x \<le> k \<longrightarrow> x \<le> key (closest_leq t k))"
    if "x \<in> set (keys (root t))" and "x \<le> k" for x
  proof -
    from that obtain n where n: "n \<in> set ?xs" using keys_in_order [of x "root t"] by auto
    then have ne: "?xs \<noteq> []" by (metis empty_iff empty_set)
    then have "last ?xs \<in> set ?xs" by (rule last_in_set)
    moreover have "y \<le> key (last ?xs)" if "y \<in> set (keys (root t))" and "y \<le> k" for y
    proof -
      from that obtain m where "m \<in> set ?xs" and "key m = y"
        using keys_in_order [of y "root t"] by auto
      with sorted_last_greatest [OF s, of m] show ?thesis by simp
    qed
    ultimately show ?thesis using c ne by auto
  qed
  have 1: "closest_leq t k \<in> set (in_order (root t)) \<and> key (closest_leq t k) = k"
    if "k \<in> set (keys (root t))"
    using found [OF that] that by (auto intro: antisym)
  have 2: "closest_leq t k \<in> set (in_order (root t)) \<and>
           key (closest_leq t k) = Max {x \<in> set (keys (root t)). x < k}"
    if "k \<notin> set (keys (root t))" and "x \<in> set (keys (root t))" and "x < k" for x
  proof -
    from found [OF that(2)] that(3)
    have f: "closest_leq t k \<in> set (in_order (root t))" "key (closest_leq t k) \<le> k"
      "\<forall>x\<in>set (keys (root t)). x \<le> k \<longrightarrow> x \<le> key (closest_leq t k)"
      by auto
    from f(1) have m: "key (closest_leq t k) \<in> set (keys (root t))" by (rule in_order_keys)
    with that(1) f(2) have "key (closest_leq t k) < k" by (metis le_neq_trans)
    with m f(3) have "Max {x \<in> set (keys (root t)). x < k} = key (closest_leq t k)"
      by (intro Max_eqI) auto
    with f(1) show ?thesis by simp
  qed
  have 3: "closest_leq t k = nullptr" if "\<forall>x\<in>set (keys (root t)). k < x"
  proof -
    from that have "?xs = []"
      by (auto simp: filter_empty_conv dest!: in_order_keys)
    with c show ?thesis by simp
  qed
  from 1 2 3 show ?thesis by blast
qed

theorem closest_leq_spec_witness:
  "bst (root example_treap) \<and>
   key (closest_leq example_treap 20) = 20 \<and>
   key (closest_leq example_treap 25) = Max {x \<in> set (keys (root example_treap)). x < 25} \<and>
   key (closest_leq example_treap 25) = 20 \<and>
   closest_leq example_treap 3 = nullptr"
  using closest_leq_spec [OF example_treap_bst, of 20] closest_leq_spec [OF example_treap_bst, of 25]
    closest_leq_spec [OF example_treap_bst, of 3] example_treap_bst
  by (simp add: example_treap_def example_tree_def closest_leq_def cmp_def)

section \<open>remove\<close>


lemma merge_nullptr_right [simp]: "merge l nullptr = l"
  by (cases l) auto

lemma root_priority_in_prios: "t \<noteq> nullptr \<Longrightarrow> priority t \<in> prios t"
  by (cases t) auto



lemma bst_remove: "bst (root t) \<Longrightarrow> bst (root (remove k t))"
  using remove_root_entries [of t k]
  by (simp add: bst_def keys_def filter_map comp_def sorted_wrt_map sorted_wrt_filter)

lemma keys_remove:
  "bst (root t) \<Longrightarrow> keys (root (remove k t)) = filter (\<lambda>x. x \<noteq> k) (keys (root t))"
  using remove_root_entries [of t k] by (simp add: keys_def filter_map comp_def)

text \<open>
  C6. For a container whose tree satisfies the search-tree invariant and a key \<open>k\<close>
  that is present, \<open>remove k\<close> lowers the node count by exactly one, \<open>find\<close> of \<open>k\<close>
  then returns \<open>nullptr\<close>, and every other key is still found, with its value.
\<close>

theorem remove_present:
  assumes "bst (root t)" and "k \<in> set (keys (root t))"
  shows "node_count (remove k t) = node_count t - 1 \<and>
         find_node (root (remove k t)) k = nullptr \<and>
         (\<forall>x\<in>set (keys (root t)). x \<noteq> k \<longrightarrow>
            find_node (root (remove k t)) x \<noteq> nullptr \<and>
            key (find_node (root (remove k t)) x) = x \<and>
            val (find_node (root (remove k t)) x) = val (find_node (root t) x))"
proof -
  have b': "bst (root (remove k t))" using assms(1) by (rule bst_remove)
  have c: "node_count (remove k t) = node_count t - 1"
    using assms(2) by (simp add: remove_node_count [OF assms(1)])
  have "k \<notin> set (keys (root (remove k t)))" by (simp add: keys_remove [OF assms(1)])
  then have f: "find_node (root (remove k t)) k = nullptr"
    using find_node_iff [OF b', of k] by simp
  have o: "find_node (root (remove k t)) x \<noteq> nullptr \<and>
           key (find_node (root (remove k t)) x) = x \<and>
           val (find_node (root (remove k t)) x) = val (find_node (root t) x)"
    if "x \<in> set (keys (root t))" and "x \<noteq> k" for x
  proof -
    from that(1) obtain v p where e: "(x, v, p) \<in> set (entries (root t))"
      using keys_entries by metis
    with that(2) have e': "(x, v, p) \<in> set (entries (root (remove k t)))"
      by (simp add: remove_root_entries [OF assms(1)])
    from find_node_of_entry [OF assms(1) e] find_node_of_entry [OF b' e']
    show ?thesis by (simp add: find_node_key)
  qed
  from c f o show ?thesis by blast
qed

theorem remove_present_witness:
  "bst (root example_treap) \<and> 20 \<in> set (keys (root example_treap)) \<and>
   node_count (remove 20 example_treap) = 4 \<and>
   find_node (root (remove 20 example_treap)) 20 = nullptr \<and>
   val (find_node (root (remove 20 example_treap)) 30) = ''d''"
proof -
  have k: "20 \<in> set (keys (root example_treap))"
    by (simp add: example_treap_def example_tree_def)
  from remove_present [OF example_treap_bst k] example_treap_bst k
  show ?thesis by (simp add: example_treap_def example_tree_def cmp_def)
qed

section \<open>upsert of a key that is present\<close>

lemma find_node_assign_value:
  "find_node (assign_value t k v) k =
     (case find_node t k of nullptr \<Rightarrow> nullptr | TreapNode p kk vv l r \<Rightarrow> TreapNode p kk v l r)"
  by (induction t) (auto simp: Let_def)

lemma assign_value_twice: "assign_value (assign_value t k v1) k v2 = assign_value t k v2"
  by (induction t) (auto simp: Let_def)

lemma shape_assign_value: "shape (assign_value t k v) = shape t"
  by (induction t) (auto simp: Let_def)

text \<open>
  C7. For a container whose tree contains the key \<open>k\<close>, \<open>upsert k v1\<close> followed by
  \<open>upsert k v2\<close> gives the same state as \<open>upsert k v2\<close> alone; the node count is
  unchanged, \<open>find\<close> of \<open>k\<close> returns a node with value \<open>v2\<close> and the priority it had before,
  and apart from values the tree is the one before the calls.
\<close>

theorem upsert_twice:
  assumes "bst (root t)" and "k \<in> set (keys (root t))"
  shows "upsert k v2 (upsert k v1 t) = upsert k v2 t \<and>
         node_count (upsert k v2 (upsert k v1 t)) = node_count t \<and>
         find_node (root (upsert k v2 (upsert k v1 t))) k \<noteq> nullptr \<and>
         val (find_node (root (upsert k v2 (upsert k v1 t))) k) = v2 \<and>
         priority (find_node (root (upsert k v2 (upsert k v1 t))) k)
           = priority (find_node (root t) k) \<and>
         shape (root (upsert k v2 (upsert k v1 t))) = shape (root t)"
proof -
  from assms have f: "find_node (root t) k \<noteq> nullptr" using find_node_iff by metis
  then obtain p kk vv l r where n: "find_node (root t) k = TreapNode p kk vv l r"
    by (cases "find_node (root t) k") auto
  have 1: "upsert k v1 t = t\<lparr>root := assign_value (root t) k v1\<rparr>"
    using f by (rule upsert_found)
  have f1: "find_node (root (upsert k v1 t)) k \<noteq> nullptr"
    by (simp add: 1 find_node_assign_value n)
  have 2: "upsert k v2 (upsert k v1 t) = t\<lparr>root := assign_value (root t) k v2\<rparr>"
    by (simp add: upsert_found [OF f1]) (simp add: 1 assign_value_twice)
  have 3: "upsert k v2 t = t\<lparr>root := assign_value (root t) k v2\<rparr>"
    using f by (rule upsert_found)
  show ?thesis
    by (simp add: 2 3 find_node_assign_value n shape_assign_value)
qed

theorem upsert_twice_witness:
  "bst (root example_treap) \<and> 30 \<in> set (keys (root example_treap)) \<and>
   upsert 30 ''y'' (upsert 30 ''x'' example_treap) = upsert 30 ''y'' example_treap \<and>
   node_count (upsert 30 ''y'' (upsert 30 ''x'' example_treap)) = 5 \<and>
   val (find_node (root (upsert 30 ''y'' (upsert 30 ''x'' example_treap))) 30) = ''y'' \<and>
   priority (find_node (root (upsert 30 ''y'' (upsert 30 ''x'' example_treap))) 30) = 30"
proof -
  have k: "30 \<in> set (keys (root example_treap))"
    by (simp add: example_treap_def example_tree_def)
  from upsert_twice [OF example_treap_bst k, of "''y''" "''x''"] example_treap_bst k
  show ?thesis by (simp add: example_treap_def example_tree_def upsert_def cmp_def Let_def)
qed

section \<open>The range traversal\<close>

lemma descend_from_nonempty:
  "to_visit \<noteq> [] \<or> head \<noteq> nullptr \<Longrightarrow> descend_from from head to_visit \<noteq> []"
  by (induction "from" head to_visit rule: descend_from.induct) (auto simp: Let_def)

lemma descend_from_stack:
  "bst head \<Longrightarrow> \<forall>n\<in>set to_visit. n \<noteq> nullptr \<and> bst n
     \<Longrightarrow> \<forall>n\<in>set (descend_from from head to_visit). n \<noteq> nullptr \<and> bst n"
  by (induction "from" head to_visit rule: descend_from.induct) (auto simp: Let_def bst_node)

lemma filter_range_left:
  fixes k :: "'k::linorder"
  shows "\<forall>n\<in>set ns. key n < k \<Longrightarrow> k < from
     \<Longrightarrow> filter (\<lambda>n. from \<le> key n \<and> key n < to) ns = []"
  by (auto simp: filter_empty_conv)

lemma filter_range_right:
  fixes k :: "'k::linorder"
  shows "\<forall>n\<in>set ns. k < key n \<Longrightarrow> to \<le> k
     \<Longrightarrow> filter (\<lambda>n. from \<le> key n \<and> key n < to) ns = []"
  by (auto simp: filter_empty_conv)

lemma descend_from_unwind:
  "bst head \<Longrightarrow>
   concat (map (\<lambda>n. filter (\<lambda>n. from \<le> key n \<and> key n < to) [n] @
                     (if key n < to
                      then filter (\<lambda>n. from \<le> key n \<and> key n < to) (in_order (right n)) else []))
             (descend_from from head to_visit))
     = filter (\<lambda>n. from \<le> key n \<and> key n < to) (in_order head) @
       concat (map (\<lambda>n. filter (\<lambda>n. from \<le> key n \<and> key n < to) [n] @
                     (if key n < to
                      then filter (\<lambda>n. from \<le> key n \<and> key n < to) (in_order (right n)) else []))
                to_visit)"
proof (induction "from" head to_visit rule: descend_from.induct)
  case (1 "from" to_visit)
  then show ?case by simp
next
  case (2 "from" p k v l r to_visit)
  from "2.prems" have bl: "bst l"
    and l: "\<forall>n\<in>set (in_order l). key n < k" and r: "\<forall>n\<in>set (in_order r). k < key n"
    by (auto simp: bst_node dest: in_order_keys)
  show ?case
  proof (cases "from \<le> k")
    case True
    then have c: "cmp k from \<ge> 0" by (auto simp: cmp_def)
    have "to \<le> k \<Longrightarrow> filter (\<lambda>n. from \<le> key n \<and> key n < to) (in_order r) = []"
      using filter_range_right [OF r] by simp
    with "2.IH" [OF refl c bl] c True show ?thesis
      by (cases "k < to") (simp_all add: Let_def)
  next
    case False
    then have c: "\<not> cmp k from \<ge> 0" by (auto simp: cmp_def)
    from False have "filter (\<lambda>n. from \<le> key n \<and> key n < to) (in_order l) = []"
      using filter_range_left [OF l, of "from"] by simp
    moreover have "to \<le> k \<Longrightarrow> filter (\<lambda>n. from \<le> key n \<and> key n < to) (in_order r) = []"
      using filter_range_right [OF r] by simp
    ultimately show ?thesis using c False
      by (cases "k < to") (simp_all add: Let_def)
  qed
qed

lemma visit_range_in_order_loop_eq:
  "bst head \<Longrightarrow> \<forall>n\<in>set to_visit. n \<noteq> nullptr \<and> bst n \<Longrightarrow>
   visit_range_in_order_loop from to to_visit head visited
     = Some (visited @ filter (\<lambda>n. from \<le> key n \<and> key n < to) (in_order head) @
         concat (map (\<lambda>n. filter (\<lambda>n. from \<le> key n \<and> key n < to) [n] @
                     (if key n < to
                      then filter (\<lambda>n. from \<le> key n \<and> key n < to) (in_order (right n)) else []))
                to_visit))"
proof (induction "from" to to_visit head visited rule: visit_range_in_order_loop.induct)
  case (1 "from" to to_visit head visited)
  let ?P = "\<lambda>n. from \<le> key n \<and> key n < to"
  let ?popped = "\<lambda>n. filter ?P [n] @ (if key n < to then filter ?P (in_order (right n)) else [])"
  show ?case
  proof (cases "to_visit \<noteq> [] \<or> head \<noteq> nullptr")
    case False
    then show ?thesis by (simp add: visit_range_in_order_loop.simps)
  next
    case True
    then obtain n rest where d: "descend_from from head to_visit = n # rest"
      using descend_from_nonempty [of to_visit head "from"]
      by (cases "descend_from from head to_visit") auto
    from descend_from_stack [OF "1.prems", of "from"] d
    have nn: "n \<noteq> nullptr" and bn: "bst n" and nr: "\<forall>n\<in>set rest. n \<noteq> nullptr \<and> bst n"
      by auto
    then obtain p k v l r where n: "n = TreapNode p k v l r" by (cases n) auto
    from bn n have br: "bst r" by (simp add: bst_node)
    from descend_from_unwind [OF "1.prems"(1), of "from" to to_visit] d
    have u: "filter ?P (in_order head) @ concat (map ?popped to_visit)
               = ?popped n @ concat (map ?popped rest)"
      by simp
    let ?visited' = "if cmp k from \<ge> 0 \<and> cmp k to < 0
                     then visited @ [TreapNode p k v l r] else visited"
    have v: "?visited' = visited @ filter ?P [n]"
      using n by (auto simp: cmp_def)
    show ?thesis
    proof (cases "cmp k to < 0")
      case lt: True
      then have kt: "k < to" by (simp add: cmp_def split: if_splits)
      have "visit_range_in_order_loop from to to_visit head visited
              = visit_range_in_order_loop from to rest r ?visited'"
        using True d n lt by (subst visit_range_in_order_loop.simps) (simp add: Let_def)
      also have "\<dots> = Some (?visited' @ filter ?P (in_order r) @ concat (map ?popped rest))"
        using True by (intro "1.IH"(1) [OF _ d n refl refl refl lt br nr]) simp
      finally show ?thesis unfolding v using u kt n by simp
    next
      case ge: False
      then have kt: "\<not> k < to" by (simp add: cmp_def split: if_splits)
      have "visit_range_in_order_loop from to to_visit head visited
              = visit_range_in_order_loop from to rest nullptr ?visited'"
        using True d n ge by (subst visit_range_in_order_loop.simps) (simp add: Let_def)
      also have "\<dots> = Some (?visited' @ filter ?P (in_order nullptr) @ concat (map ?popped rest))"
        using True by (intro "1.IH"(2) [OF _ d n refl refl refl ge _ nr]) simp_all
      finally show ?thesis unfolding v using u kt n by simp
    qed
  qed
qed

text \<open>
  C8. On a container whose tree satisfies the search-tree invariant, and for every pair
  of bounds, \<open>visit_range_in_order from to\<close> returns and visits exactly the nodes with
  \<open>from \<le> key\<close> and \<open>key < to\<close>, in the order of the tree, which is ascending in the keys.
  Over the keys 5, 10, 20, 30, 40 the bounds 10 and 30 give the keys 10, 20.
\<close>

theorem visit_range_in_order_spec:
  assumes "bst (root t)"
  shows "visit_range_in_order from to t
           = Some (filter (\<lambda>n. from \<le> key n \<and> key n < to) (in_order (root t))) \<and>
         sorted_wrt (<) (map key (filter (\<lambda>n. from \<le> key n \<and> key n < to) (in_order (root t))))"
proof -
  have "sorted_wrt (<) (map key (filter (\<lambda>n. from \<le> key n \<and> key n < to) (in_order (root t))))"
    using assms by (simp add: bst_def map_key_in_order [symmetric] sorted_wrt_map sorted_wrt_filter)
  then show ?thesis
    by (simp add: visit_range_in_order_def visit_range_in_order_loop_eq [OF assms])
qed

theorem visit_range_in_order_spec_witness:
  "bst (root example_treap) \<and>
   map_option (map key) (visit_range_in_order 10 30 example_treap) = Some [10, 20]"
  using visit_range_in_order_spec [OF example_treap_bst, of 10 30] example_treap_bst
  by (simp add: example_treap_def example_tree_def)

section \<open>The in-order pass of the self-check\<close>

lemma fold_verify_visitor_failed:
  "\<not> failed c \<Longrightarrow> \<not> failed (fold verify_visitor visited c)"
  by (induction visited arbitrary: c) (auto simp: verify_visitor_def Let_def)

lemma fold_verify_visitor_seen_count:
  "seen_count (fold verify_visitor visited c) = seen_count c + int (length visited)"
  by (induction visited arbitrary: c) (auto simp: verify_visitor_def Let_def)

text \<open>
  C9. For every tree, sorted or not, the in-order pass of the self-check completes with
  \<open>failed\<close> still false (the only assignment to it writes \<open>False\<close>), so the assertion on
  it cannot fire; \<open>seen_count\<close> is the number of nodes.
\<close>

theorem verify_self_failed_stays_false:
  "\<exists>c. verify_self_in_order t = Some c \<and> failed c = False \<and>
       seen_count c = int (length (in_order (root t)))"
  by (simp add: verify_self_in_order_def visit_in_order_eq fold_verify_visitor_failed
      fold_verify_visitor_seen_count)

theorem verify_self_failed_stays_false_witness:
  "\<not> bst (root unsorted_treap) \<and>
   (\<exists>c. verify_self_in_order unsorted_treap = Some c \<and> failed c = False \<and> seen_count c = 3)"
proof -
  have l: "int (length (in_order (root unsorted_treap))) = 3"
    by (simp add: unsorted_treap_def)
  have b: "\<not> bst (root unsorted_treap)"
    by (simp add: unsorted_treap_def bst_def)
  from verify_self_failed_stays_false [of unsorted_treap] l b show ?thesis
    by metis
qed

section \<open>The depth bound of the self-check\<close>









section \<open>The self-check on a container that satisfies the invariants\<close>





section \<open>No node has the priority of its right child\<close>











section \<open>remove of an absent key\<close>








section \<open>The state of the priority generator\<close>

lemma prng_seed_upsert:
  "prng_seed (upsert k v t)
     = (if find_node (root t) k \<noteq> nullptr then prng_seed t else prng_step (prng_seed t))"
  by (simp add: upsert_def Let_def prng_next_def)

lemma prng_seed_run:
  "prng_seed (run calls t) = (prng_step ^^ insertions calls t) (prng_seed t)"
proof (induction calls arbitrary: t)
  case Nil
  then show ?case by (simp add: run_def)
next
  case (Cons c calls)
  have "prng_seed (run calls (perform c t))
          = (prng_step ^^ insertions calls (perform c t)) (prng_seed (perform c t))"
    by (rule Cons.IH)
  then show ?case
    by (cases c) (simp_all add: run_def prng_seed_upsert remove_prng_seed funpow_swap1)
qed

text \<open>
  C10. \<open>upsert\<close> advances the generator state by one step when \<open>find\<close> does not find the
  key and leaves it alone when it does; \<open>remove\<close>, \<open>find\<close>, \<open>closest_leq\<close> and the two
  traversals leave it alone. After any sequence of calls on a fresh container the state
  is the seed advanced once per insertion of a new key.
\<close>

theorem prng_seed_frame:
  "prng_seed (upsert k v t)
     = (if find_node (root t) k \<noteq> nullptr then prng_seed t else prng_step (prng_seed t)) \<and>
   prng_seed (remove k t) = prng_seed t \<and>
   prng_seed (perform (Find k) t) = prng_seed t \<and>
   prng_seed (perform (ClosestLeq k) t) = prng_seed t \<and>
   prng_seed (perform VisitInOrder t) = prng_seed t \<and>
   prng_seed (perform (VisitRangeInOrder from to) t) = prng_seed t \<and>
   prng_seed (run calls (Treap seed)) = (prng_step ^^ insertions calls (Treap seed)) seed"
  using prng_seed_run [of calls "Treap seed"]
  by (simp add: prng_seed_upsert remove_prng_seed Treap_def)

theorem prng_seed_frame_witness:
  "insertions example_calls (Treap 42) = 4 \<and>
   prng_seed (run example_calls (Treap 42)) = (prng_step ^^ 4) 42 \<and>
   prng_seed (run example_calls (Treap 42)) = 149370390209998"
  using prng_seed_frame [of _ _ _ _ _ example_calls 42]
  by (simp add: example_calls_def run_def upsert_def remove_def Treap_def prng_next_def
      prng_step_def PrngMult_def PrngAdd_def PrngModMask_def PrngModPower_def cmp_def Let_def
      numeral_eq_Suc)


section \<open>remove_all\<close>

lemma remove_all_state: "fst (remove_all t) = t\<lparr>node_count := 0\<rparr>"
  by (simp add: remove_all_def Let_def)

lemma size_in_order: "length (in_order n) = size n"
  by (induction n) auto

lemma remove_all_loop_frees:
  "set (remove_all_loop to_delete freed) = set freed \<union> (\<Union>n\<in>set to_delete. set (in_order n)) \<and>
   length (remove_all_loop to_delete freed) = length freed + sum_list (map size to_delete)"
  by (induction to_delete freed rule: remove_all_loop.induct) auto

lemma remove_all_frees:
  "set (snd (remove_all t)) = set (in_order (root t)) \<and>
   length (snd (remove_all t)) = length (in_order (root t))"
  using remove_all_loop_frees [of "[root t]" "[]"]
  by (simp add: remove_all_def size_in_order)

text \<open>
  C1. \<open>remove_all\<close> on the container that holds the single key 1: the node count is
  reset to zero and the node is freed, but \<^verbatim>\<open>_root\<close> is not assigned and still refers to
  that node, so the root is not empty and the in-order traversal still starts from it.
\<close>

theorem remove_all_keeps_root:
  "node_count (fst (remove_all (upsert 1 ''a'' (Treap 42)))) = 0 \<and>
   root (fst (remove_all (upsert 1 ''a'' (Treap 42)))) = TreapNode 1059025964525 1 ''a'' nullptr nullptr \<and>
   snd (remove_all (upsert 1 ''a'' (Treap 42))) = [TreapNode 1059025964525 1 ''a'' nullptr nullptr] \<and>
   visit_in_order (fst (remove_all (upsert 1 ''a'' (Treap 42))))
     = Some [TreapNode 1059025964525 (1::nat) ''a'' nullptr nullptr]"
  by (simp add: remove_all_def visit_in_order_eq upsert_def Treap_def prng_next_def
      prng_step_def PrngMult_def PrngAdd_def PrngModMask_def PrngModPower_def cmp_def Let_def)

end
